theory Spec2Isabelle
  imports Complex_Main "HOL-Library.Log_Nat" "HOL-Library.Word"
begin

section \<open>Python values used by \<^verbatim>\<open>extract-color-palettes.py\<close>\<close>

text \<open>
  Exceptions are values. \<open>ZeroDivisionError\<close> is what \<^verbatim>\<open>/\<close> raises on a zero divisor,
  \<open>ValueError\<close> is what \<^verbatim>\<open>extract_png_from_svg\<close> raises when the container holds no
  embedded PNG, and \<open>OtherException\<close> stands for whatever else the base64 decoder or the
  imaging library raise.
\<close>

datatype error = ZeroDivisionError | ValueError string | OtherException string

subsection \<open>Floating point\<close>

text \<open>
  A Python \<^verbatim>\<open>float\<close> is an IEEE 754 binary64 number. The finite ones are rationals, so a
  float is modelled by the rational it denotes and every operation by the exact result
  rounded to the nearest binary64 value, ties to even. \<open>fl\<close> is that rounding: the
  significand has 53 bits, the exponent of the unit in the last place is the exponent of
  the argument minus 52, and never less than \<open>-1074\<close> (subnormal numbers). The values the
  program computes lie between 0 and 100, far below the overflow threshold.
\<close>

definition round_half_even :: "rat \<Rightarrow> int" where
  "round_half_even x =
     (let f = \<lfloor>x\<rfloor>; d = x - of_int f
      in if d < 1 / 2 then f else if 1 / 2 < d then f + 1 else if even f then f else f + 1)"

definition pow2 :: "int \<Rightarrow> rat" where
  "pow2 e = (if 0 \<le> e then 2 ^ nat e else 1 / 2 ^ nat (- e))"

definition ilog2 :: "rat \<Rightarrow> int" where
  \<comment> \<open>the exponent \<open>e\<close> with \<open>2^e \<le> q < 2^(e+1)\<close>, for \<open>0 < q\<close>\<close>
  "ilog2 q = (case quotient_of q of (a, b) \<Rightarrow>
     let d = bitlen a - bitlen b in if pow2 d \<le> q then d else d - 1)"

definition ulp_exp :: "rat \<Rightarrow> int" where
  \<comment> \<open>the exponent of the unit in the last place of the binary64 numbers around \<open>q\<close>\<close>
  "ulp_exp q = max (ilog2 \<bar>q\<bar>) (- 1022) - 52"

definition fl :: "rat \<Rightarrow> rat" where
  "fl q = (if q = 0 then 0
     else let e = ulp_exp q in of_int (round_half_even (q / pow2 e)) * pow2 e)"

definition py_truediv :: "int \<Rightarrow> int \<Rightarrow> error + rat" where
  \<comment> \<open>\<^verbatim>\<open>a / b\<close> on integers: the correctly rounded quotient\<close>
  "py_truediv a b = (if b = 0 then Inl ZeroDivisionError else Inr (fl (of_int a / of_int b)))"

definition float_mul :: "rat \<Rightarrow> rat \<Rightarrow> rat" where
  "float_mul x y = fl (x * y)"

definition py_round :: "rat \<Rightarrow> int" where
  \<comment> \<open>\<^verbatim>\<open>round(x)\<close> on a float: the nearest integer, ties to even\<close>
  "py_round x = round_half_even x"

definition py_round2 :: "rat \<Rightarrow> rat" where
  \<comment> \<open>\<^verbatim>\<open>round(x, 2)\<close>: the float nearest to the two-decimal rounding of \<open>x\<close>\<close>
  "py_round2 x = fl (of_int (round_half_even (x * 100)) / 100)"

subsection \<open>Formatting\<close>

definition hex_digit :: "nat \<Rightarrow> char" where
  "hex_digit d = ''0123456789ABCDEF'' ! d"

fun hex_digits :: "nat \<Rightarrow> string" where
  "hex_digits n = (if n < 16 then [hex_digit n] else hex_digits (n div 16) @ [hex_digit (n mod 16)])"

declare hex_digits.simps [simp del]

definition format_02X :: "int \<Rightarrow> string" where
  \<comment> \<open>the format specification \<^verbatim>\<open>02X\<close>: upper-case hexadecimal, zero-padded to width 2,
      the sign counted in the width\<close>
  "format_02X i =
     (if i < 0 then CHR ''-'' # hex_digits (nat (- i))
      else let s = hex_digits (nat i) in replicate (2 - length s) CHR ''0'' @ s)"

section \<open>The palette extractor\<close>

text \<open>
  The image is the list \<^verbatim>\<open>list(image.getdata())\<close> of an RGBA image: one 4-tuple of 8-bit
  channels per pixel, in row order. Converting another mode to RGBA is the imaging
  library's work and happens before.
\<close>

type_synonym pixel = "8 word \<times> 8 word \<times> 8 word \<times> 8 word"
type_synonym qcolor = "int \<times> int \<times> int"

record PaletteEntry =
  color :: string
  pixelCount :: nat
  percentage :: rat

definition opaque_pixels :: "pixel list \<Rightarrow> pixel list" where
  "opaque_pixels pixels = filter (\<lambda>(r, g, b, a). 127 < a) pixels"

definition quantize_channel :: "8 word \<Rightarrow> int" where
  \<comment> \<open>\<^verbatim>\<open>round(r / 15) * 15\<close>; the divisor is the literal 15\<close>
  "quantize_channel c = py_round (fl (of_nat (unat c) / 15)) * 15"

definition quantized :: "pixel list \<Rightarrow> qcolor list" where
  "quantized opaque =
     map (\<lambda>(r, g, b, a). (quantize_channel r, quantize_channel g, quantize_channel b)) opaque"

text \<open>
  \<^verbatim>\<open>Counter(quantized)\<close> is a dictionary: it keeps its keys in the order of their first
  insertion, and counting an element again changes the count in place.
\<close>

fun counter_add :: "'k \<Rightarrow> ('k \<times> nat) list \<Rightarrow> ('k \<times> nat) list" where
  "counter_add k [] = [(k, 1)]"
| "counter_add k ((k', c) # cs) =
     (if k' = k then (k', c + 1) # cs else (k', c) # counter_add k cs)"

definition Counter :: "'k list \<Rightarrow> ('k \<times> nat) list" where
  "Counter xs = foldl (\<lambda>cs k. counter_add k cs) [] xs"

definition filtered :: "(qcolor \<times> nat) list \<Rightarrow> int \<Rightarrow> (qcolor \<times> nat) list" where
  "filtered color_counts min_pixels =
     filter (\<lambda>(c, count). min_pixels \<le> int count) color_counts"

definition sort_by_count_desc :: "(qcolor \<times> nat) list \<Rightarrow> (qcolor \<times> nat) list" where
  \<comment> \<open>\<^verbatim>\<open>sort(key=lambda x: x[1], reverse=True)\<close>: stable, equal counts keep their order\<close>
  "sort_by_count_desc xs = sort_key (\<lambda>x. - int (snd x)) xs"

definition slice_to :: "'a list \<Rightarrow> int \<Rightarrow> 'a list" where
  \<comment> \<open>\<^verbatim>\<open>xs[:m]\<close>; a negative \<open>m\<close> counts from the end\<close>
  "slice_to xs m = (if 0 \<le> m then take (nat m) xs else take (length xs - nat (- m)) xs)"

definition hex_color :: "qcolor \<Rightarrow> string" where
  "hex_color c = (case c of (r, g, b) \<Rightarrow> CHR ''#'' # format_02X r @ format_02X g @ format_02X b)"

definition format_entry :: "nat \<Rightarrow> qcolor \<times> nat \<Rightarrow> error + PaletteEntry" where
  "format_entry n_opaque x = (case x of (c, count) \<Rightarrow>
     (case py_truediv (int count) (int n_opaque) of
        Inl e \<Rightarrow> Inl e
      | Inr ratio \<Rightarrow>
          Inr \<lparr>color = hex_color c, pixelCount = count,
               percentage = py_round2 (float_mul ratio 100)\<rparr>))"

fun format_all :: "nat \<Rightarrow> (qcolor \<times> nat) list \<Rightarrow> error + PaletteEntry list" where
  "format_all n_opaque [] = Inr []"
| "format_all n_opaque (x # xs) =
     (case format_entry n_opaque x of
        Inl e \<Rightarrow> Inl e
      | Inr entry \<Rightarrow>
          (case format_all n_opaque xs of Inl e \<Rightarrow> Inl e | Inr rest \<Rightarrow> Inr (entry # rest)))"

definition top_colors :: "pixel list \<Rightarrow> int \<Rightarrow> int \<Rightarrow> (qcolor \<times> nat) list" where
  \<comment> \<open>\<^verbatim>\<open>filtered[:max_colors]\<close> after the sort\<close>
  "top_colors opaque max_colors min_pixels =
     slice_to (sort_by_count_desc (filtered (Counter (quantized opaque)) min_pixels)) max_colors"

definition extract_color_palette :: "pixel list \<Rightarrow> int \<Rightarrow> int \<Rightarrow> error + PaletteEntry list" where
  "extract_color_palette pixels max_colors min_pixels =
     (let opaque = opaque_pixels pixels
      in if opaque = [] then Inr []
         else format_all (length opaque) (top_colors opaque max_colors min_pixels))"

section \<open>The report assembler\<close>




definition extract_color_palette_image ::
  "('img \<Rightarrow> error + pixel list) \<Rightarrow> 'img \<Rightarrow> int \<Rightarrow> int \<Rightarrow> error + PaletteEntry list" where
  "extract_color_palette_image getdata img max_colors min_pixels =
     (case getdata img of
        Inl e \<Rightarrow> Inl e
      | Inr pixels \<Rightarrow> extract_color_palette pixels max_colors min_pixels)"



section \<open>Notions used to state the properties\<close>

text \<open>
  \<open>first_index xs c\<close> is the position of the first occurrence of \<open>c\<close> in \<open>xs\<close>,
  \<open>entry_of n x\<close> is the entry the formatting loop appends for the pair \<open>x\<close> when the
  division succeeds, and \<open>byte_color c\<close> says that the three channels of \<open>c\<close> lie in
  0..255, as those of every quantized colour do.
\<close>

definition first_index :: "'a list \<Rightarrow> 'a \<Rightarrow> nat" where
  "first_index xs c = length (takeWhile (\<lambda>y. y \<noteq> c) xs)"

definition entry_of :: "nat \<Rightarrow> qcolor \<times> nat \<Rightarrow> PaletteEntry" where
  "entry_of n x =
     \<lparr>color = hex_color (fst x), pixelCount = snd x,
      percentage = py_round2 (float_mul (fl (of_int (int (snd x)) / of_int (int n))) 100)\<rparr>"

definition byte_color :: "qcolor \<Rightarrow> bool" where
  "byte_color c = (case c of (r, g, b) \<Rightarrow>
     0 \<le> r \<and> r \<le> 255 \<and> 0 \<le> g \<and> g \<le> 255 \<and> 0 \<le> b \<and> b \<le> 255)"

text \<open>
  \<open>asset_palette\<close> is what the body of the \<^verbatim>\<open>try\<close> block computes for one file, the
  exception or the palette, and \<open>asset_result\<close> is the value stored for a file that was
  processed without an exception.
\<close>

definition asset_palette ::
  "(string \<Rightarrow> error + 'img) \<Rightarrow> ('img \<Rightarrow> error + pixel list) \<Rightarrow> string
     \<Rightarrow> error + PaletteEntry list" where
  "asset_palette load getdata svg_path =
     (case load svg_path of
        Inl e \<Rightarrow> Inl e
      | Inr img \<Rightarrow> extract_color_palette_image getdata img 5 100)"




section \<open>Rounding\<close>

lemma pow2_powi: "pow2 e = 2 powi e"
  by (simp add: pow2_def power_int_def field_simps)

lemma pow2_pos: "0 < pow2 e"
  by (simp add: pow2_powi)

lemma pow2_mono: "a \<le> b \<Longrightarrow> pow2 a \<le> pow2 b"
  by (simp add: pow2_powi power_int_increasing)

lemma pow2_add: "pow2 (a + b) = pow2 a * pow2 b"
  by (simp add: pow2_powi power_int_add)

lemma pow2_nat: "pow2 (int n) = 2 ^ n"
  by (simp add: pow2_def)




lemma rhe_error: "\<bar>of_int (round_half_even x) - x\<bar> \<le> 1 / 2"
proof -
  have "of_int \<lfloor>x\<rfloor> \<le> x" "x < of_int \<lfloor>x\<rfloor> + 1"
    by linarith+
  then show ?thesis
    by (auto simp: round_half_even_def Let_def)
qed



lemma rhe_near:
  assumes "\<bar>x - of_int k\<bar> < 1 / 2"
  shows "round_half_even x = k"
proof -
  have "\<bar>of_int (round_half_even x) - x\<bar> \<le> 1 / 2"
    by (rule rhe_error)
  with assms have "\<bar>(of_int (round_half_even x) :: rat) - of_int k\<bar> < 1"
    by linarith
  then have "\<bar>round_half_even x - k\<bar> < 1"
    by (metis of_int_diff of_int_abs of_int_less_1_iff)
  then show ?thesis by linarith
qed

section \<open>Rounding to binary64\<close>

text \<open>
  \<open>ilog2\<close> is the binary exponent: \<open>2 ^ ilog2 q \<le> q < 2 ^ (ilog2 q + 1)\<close> for positive \<open>q\<close>.
  So \<open>q / 2 ^ ulp_exp q\<close> lies between \<open>2 ^ 52\<close> and \<open>2 ^ 53\<close> for a normal number, and
  \<open>fl\<close> keeps 53 significant bits.
\<close>

lemma ilog2_le:
  assumes "0 < q"
  shows "pow2 (ilog2 q) \<le> q"
proof -
  obtain a b where ab: "quotient_of q = (a, b)"
    by (cases "quotient_of q")
  then have b: "0 < b"
    using quotient_of_denom_pos by blast
  have q: "q = of_int a / of_int b"
    using ab quotient_of_div by blast
  with assms b have a: "0 < a"
    by (simp add: zero_less_divide_iff)
  let ?d = "bitlen a - bitlen b"
  have la: "1 \<le> bitlen a"
    using a by (simp add: bitlen_alt_def)
  have "(2::int) ^ nat (bitlen a - 1) \<le> a"
    using bitlen_bounds [OF a] by simp
  then have "(of_int ((2::int) ^ nat (bitlen a - 1)) :: rat) \<le> of_int a"
    by (simp only: of_int_le_iff)
  then have 1: "pow2 (bitlen a - 1) \<le> of_int a"
    using la by (simp add: pow2_def)
  have "b < 2 ^ nat (bitlen b)"
    using bitlen_bounds [OF b] by simp
  then have "(of_int b :: rat) < of_int ((2::int) ^ nat (bitlen b))"
    by (simp only: of_int_less_iff)
  then have 2: "of_int b \<le> pow2 (bitlen b)"
    using bitlen_nonneg [of b] by (simp add: pow2_def)
  have 3: "pow2 (bitlen a - 1) = pow2 (?d - 1) * pow2 (bitlen b)"
    by (simp add: pow2_add [symmetric])
  have "pow2 (?d - 1) * of_int b \<le> pow2 (?d - 1) * pow2 (bitlen b)"
    using 2 pow2_pos [of "?d - 1"] by simp
  also have "\<dots> \<le> of_int a"
    using 1 3 by simp
  finally have "pow2 (?d - 1) \<le> q"
    using b by (simp add: q pos_le_divide_eq)
  then show ?thesis
    by (simp add: ilog2_def ab Let_def)
qed

lemma ilog2_upper:
  assumes "0 < q"
  shows "q < pow2 (ilog2 q + 1)"
proof -
  obtain a b where ab: "quotient_of q = (a, b)"
    by (cases "quotient_of q")
  then have b: "0 < b"
    using quotient_of_denom_pos by blast
  have q: "q = of_int a / of_int b"
    using ab quotient_of_div by blast
  with assms b have a: "0 < a"
    by (simp add: zero_less_divide_iff)
  let ?d = "bitlen a - bitlen b"
  have lb: "1 \<le> bitlen b"
    using b by (simp add: bitlen_alt_def)
  have "a < 2 ^ nat (bitlen a)"
    using bitlen_bounds [OF a] by simp
  then have "(of_int a :: rat) < of_int ((2::int) ^ nat (bitlen a))"
    by (simp only: of_int_less_iff)
  then have 1: "of_int a < pow2 (bitlen a)"
    using bitlen_nonneg [of a] by (simp add: pow2_def)
  have "(2::int) ^ nat (bitlen b - 1) \<le> b"
    using bitlen_bounds [OF b] by simp
  then have "(of_int ((2::int) ^ nat (bitlen b - 1)) :: rat) \<le> of_int b"
    by (simp only: of_int_le_iff)
  then have 2: "pow2 (bitlen b - 1) \<le> of_int b"
    using lb by (simp add: pow2_def)
  have 3: "pow2 (bitlen a) = pow2 (?d + 1) * pow2 (bitlen b - 1)"
    by (simp add: pow2_add [symmetric])
  have "of_int a < pow2 (?d + 1) * pow2 (bitlen b - 1)"
    using 1 3 by simp
  also have "\<dots> \<le> pow2 (?d + 1) * of_int b"
    using 2 pow2_pos [of "?d + 1"] by simp
  finally have upper: "q < pow2 (?d + 1)"
    using b by (simp add: q pos_divide_less_eq)
  show ?thesis
  proof (cases "pow2 ?d \<le> q")
    case True
    then show ?thesis
      using upper by (simp add: ilog2_def ab Let_def)
  next
    case False
    then show ?thesis
      by (simp add: ilog2_def ab Let_def)
  qed
qed

lemma ilog2_less:
  assumes "0 < q" and "q < pow2 k"
  shows "ilog2 q < k"
proof (rule ccontr)
  assume "\<not> ilog2 q < k"
  then have "pow2 k \<le> pow2 (ilog2 q)"
    by (simp add: pow2_mono)
  with ilog2_le [OF assms(1)] assms(2) show False
    by linarith
qed

lemma fl_ulp: "q \<noteq> 0 \<Longrightarrow> fl q = of_int (round_half_even (q / pow2 (ulp_exp q))) * pow2 (ulp_exp q)"
  by (simp add: fl_def Let_def)

lemma fl_zero: "fl 0 = 0"
  by (simp add: fl_def)


lemma ulp_exp_le:
  assumes "0 < q" and "q < pow2 k" and "- 1022 < k"
  shows "ulp_exp q \<le> k - 53"
  using ilog2_less [OF assms(1,2)] assms(1,3) by (simp add: ulp_exp_def)


lemma fl_error:
  assumes "q \<noteq> 0"
  shows "\<bar>fl q - q\<bar> \<le> pow2 (ulp_exp q) / 2"
proof -
  let ?u = "pow2 (ulp_exp q)"
  have u: "0 < ?u" by (rule pow2_pos)
  have "fl q - q = (of_int (round_half_even (q / ?u)) - q / ?u) * ?u"
    using u assms by (simp add: fl_ulp field_simps)
  then have "\<bar>fl q - q\<bar> = \<bar>of_int (round_half_even (q / ?u)) - q / ?u\<bar> * ?u"
    using u by (simp add: abs_mult)
  also have "\<dots> \<le> (1 / 2) * ?u"
    using rhe_error [of "q / ?u"] u by (simp only: mult_le_cancel_right_pos)
  finally show ?thesis by simp
qed

subsection \<open>Bounds of the percentage\<close>





subsection \<open>Quantization of a channel\<close>

lemma round_div15:
  fixes v :: nat
  assumes "v < 256"
  shows "round_half_even (fl (of_nat v / 15)) = (int v + 7) div 15"
proof (rule rhe_near)
  let ?q = "of_nat v / 15 :: rat"
  let ?k = "(int v + 7) div 15"
  have err: "\<bar>fl ?q - ?q\<bar> \<le> 1 / 2 ^ 49"
  proof (cases "v = 0")
    case True
    then show ?thesis by (simp add: fl_zero)
  next
    case False
    then have pos: "0 < ?q" by simp
    have "?q < pow2 5"
      using assms by (simp add: pow2_def)
    then have "ulp_exp ?q \<le> - 48"
      using ulp_exp_le [OF pos, of 5] by simp
    then have "pow2 (ulp_exp ?q) \<le> pow2 (- 48)"
      by (rule pow2_mono)
    moreover have "\<bar>fl ?q - ?q\<bar> \<le> pow2 (ulp_exp ?q) / 2"
      using pos by (intro fl_error) simp
    ultimately show ?thesis
      by (simp add: pow2_def)
  qed
  have "15 * ?k \<le> int v + 7" "int v + 7 < 15 * ?k + 15"
    by presburger+
  then have "15 * ?k - 7 \<le> int v" "int v \<le> 15 * ?k + 7"
    by linarith+
  then have "(of_int (15 * ?k - 7) :: rat) \<le> of_int (int v)" "(of_int (int v) :: rat) \<le> of_int (15 * ?k + 7)"
    by (simp_all only: of_int_le_iff)
  then have "\<bar>?q - of_int ?k\<bar> \<le> 7 / 15"
    by (simp add: abs_le_iff field_simps)
  moreover have "(1 / 2 ^ 49 :: rat) < 1 / 30"
    by simp
  ultimately show "\<bar>fl ?q - of_int ?k\<bar> < 1 / 2"
    using err by linarith
qed

lemma quantize_channel_eq: "quantize_channel c = (int (unat c) + 7) div 15 * 15"
proof -
  have "unat c < 256"
    using unsigned_less [of c] by simp
  then have "round_half_even (fl (of_nat (unat c) / 15)) = (int (unat c) + 7) div 15"
    by (rule round_div15)
  then show ?thesis
    unfolding quantize_channel_def py_round_def by (rule arg_cong)
qed

section \<open>The counting dictionary\<close>

lemma Counter_Nil: "Counter [] = []"
  by (simp add: Counter_def)

lemma Counter_snoc: "Counter (xs @ [x]) = counter_add x (Counter xs)"
  by (simp add: Counter_def)

lemma map_of_counter_add:
  "map_of (counter_add k cs) k' =
     (if k' = k then Some (case map_of cs k of None \<Rightarrow> 1 | Some c \<Rightarrow> c + 1) else map_of cs k')"
  by (induction cs) auto

lemma keys_counter_add:
  "map fst (counter_add k cs) = (if k \<in> fst ` set cs then map fst cs else map fst cs @ [k])"
  by (induction cs) force+


lemma first_index_less: "c \<in> set xs \<Longrightarrow> first_index xs c < length xs"
  unfolding first_index_def by (induction xs) auto

lemma first_index_snoc_old: "c \<in> set xs \<Longrightarrow> first_index (xs @ [x]) c = first_index xs c"
  by (simp add: first_index_def)

lemma first_index_snoc_new:
  assumes "x \<notin> set xs"
  shows "first_index (xs @ [x]) x = length xs"
proof -
  have "\<And>y. y \<in> set xs \<Longrightarrow> y \<noteq> x"
    using assms by blast
  then have "takeWhile (\<lambda>y. y \<noteq> x) (xs @ [x]) = xs @ takeWhile (\<lambda>y. y \<noteq> x) [x]"
    by (rule takeWhile_append2)
  then show ?thesis
    by (simp add: first_index_def)
qed

lemma keys_Counter: "fst ` set (Counter xs) = set xs"
proof (induction xs rule: rev_induct)
  case Nil
  show ?case by (simp add: Counter_Nil)
next
  case (snoc x xs)
  have "set (map fst (Counter (xs @ [x]))) = insert x (set (map fst (Counter xs)))"
    unfolding Counter_snoc keys_counter_add by auto
  with snoc show ?case by simp
qed

lemma distinct_keys_Counter: "distinct (map fst (Counter xs))"
proof (induction xs rule: rev_induct)
  case Nil
  show ?case by (simp add: Counter_Nil)
next
  case (snoc x xs)
  then show ?case
    unfolding Counter_snoc keys_counter_add by simp
qed

lemma map_of_Counter:
  "map_of (Counter xs) c = (if c \<in> set xs then Some (count_list xs c) else None)"
proof (induction xs arbitrary: c rule: rev_induct)
  case Nil
  show ?case by (simp add: Counter_Nil)
next
  case (snoc x xs)
  show ?case
  proof (cases "c = x")
    case True
    then show ?thesis
      by (simp add: Counter_snoc map_of_counter_add snoc count_list_0_iff)
  next
    case False
    then show ?thesis
      by (simp add: Counter_snoc map_of_counter_add snoc)
  qed
qed

lemma Counter_mem:
  "(c, n) \<in> set (Counter xs) \<longleftrightarrow> c \<in> set xs \<and> n = count_list xs c"
proof -
  have "(c, n) \<in> set (Counter xs) \<longleftrightarrow> map_of (Counter xs) c = Some n"
    using distinct_keys_Counter [of xs] by simp
  also have "\<dots> \<longleftrightarrow> c \<in> set xs \<and> n = count_list xs c"
    unfolding map_of_Counter by auto
  finally show ?thesis .
qed


lemma keys_Counter_first_order:
  "sorted_wrt (\<lambda>a b. first_index xs a < first_index xs b) (map fst (Counter xs))"
proof (induction xs rule: rev_induct)
  case Nil
  show ?case by (simp add: Counter_Nil)
next
  case (snoc x xs)
  let ?K = "map fst (Counter xs)"
  have K: "set ?K = set xs"
    using keys_Counter [of xs] by simp
  have old: "sorted_wrt (\<lambda>a b. first_index (xs @ [x]) a < first_index (xs @ [x]) b) ?K"
  proof (rule sorted_wrt_mono_rel [OF _ snoc])
    fix a b
    assume "a \<in> set ?K" "b \<in> set ?K" "first_index xs a < first_index xs b"
    then show "first_index (xs @ [x]) a < first_index (xs @ [x]) b"
      by (simp only: K first_index_snoc_old)
  qed
  show ?case
  proof (cases "x \<in> set xs")
    case True
    then have "map fst (Counter (xs @ [x])) = ?K"
      unfolding Counter_snoc keys_counter_add using keys_Counter [of xs] by simp
    with old show ?thesis by simp
  next
    case False
    then have eq: "map fst (Counter (xs @ [x])) = ?K @ [x]"
      unfolding Counter_snoc keys_counter_add using keys_Counter [of xs] by simp
    have "\<forall>a\<in>set ?K. first_index (xs @ [x]) a < first_index (xs @ [x]) x"
    proof
      fix a
      assume "a \<in> set ?K"
      then have a: "a \<in> set xs"
        by (simp only: K)
      show "first_index (xs @ [x]) a < first_index (xs @ [x]) x"
        using first_index_less [OF a]
        by (simp only: first_index_snoc_old [OF a] first_index_snoc_new [OF False])
    qed
    with old show ?thesis
      unfolding eq by (simp add: sorted_wrt_append)
  qed
qed

section \<open>The formatting loop and the ranked list\<close>

lemma format_entry_ok: "0 < n \<Longrightarrow> format_entry n x = Inr (entry_of n x)"
  by (cases x) (simp add: format_entry_def py_truediv_def entry_of_def)

lemma format_all_ok: "0 < n \<Longrightarrow> format_all n xs = Inr (map (entry_of n) xs)"
  by (induction xs) (simp_all add: format_entry_ok)

lemma slice_to_Nil: "slice_to [] m = []"
  by (simp add: slice_to_def)

lemma top_colors_Nil: "top_colors [] max_colors min_pixels = []"
  by (simp add: top_colors_def quantized_def Counter_Nil filtered_def sort_by_count_desc_def
      slice_to_Nil)

lemma extract_color_palette_eq:
  "extract_color_palette pixels max_colors min_pixels =
     Inr (map (entry_of (length (opaque_pixels pixels)))
            (top_colors (opaque_pixels pixels) max_colors min_pixels))"
proof (cases "opaque_pixels pixels = []")
  case True
  then show ?thesis
    by (simp add: extract_color_palette_def top_colors_Nil)
next
  case False
  then have "0 < length (opaque_pixels pixels)"
    by simp
  then show ?thesis
    using False by (simp add: extract_color_palette_def Let_def format_all_ok)
qed

lemma slice_to_take: "\<exists>k. slice_to xs m = take k xs"
  by (auto simp: slice_to_def)

lemma slice_to_nonneg: "0 \<le> m \<Longrightarrow> slice_to xs m = take (nat m) xs"
  by (simp add: slice_to_def)

lemma set_slice_to: "set (slice_to xs m) \<subseteq> set xs"
proof -
  obtain k where "slice_to xs m = take k xs"
    using slice_to_take by blast
  then show ?thesis
    by (simp add: set_take_subset)
qed

lemma top_colors_take:
  "\<exists>k. top_colors opaque max_colors min_pixels =
     take k (sort_by_count_desc (filtered (Counter (quantized opaque)) min_pixels))"
  unfolding top_colors_def by (rule slice_to_take)

lemma set_top_colors:
  "set (top_colors opaque max_colors min_pixels)
     \<subseteq> set (filtered (Counter (quantized opaque)) min_pixels)"
proof -
  have "set (top_colors opaque max_colors min_pixels)
      \<subseteq> set (sort_by_count_desc (filtered (Counter (quantized opaque)) min_pixels))"
    unfolding top_colors_def by (rule set_slice_to)
  then show ?thesis
    by (simp add: sort_by_count_desc_def)
qed

lemma filtered_mem:
  "(c, n) \<in> set (filtered (Counter xs) min_pixels)
     \<longleftrightarrow> c \<in> set xs \<and> n = count_list xs c \<and> min_pixels \<le> int n"
  by (simp add: filtered_def Counter_mem)

lemma top_colors_mem:
  assumes "(c, n) \<in> set (top_colors opaque max_colors min_pixels)"
  shows "c \<in> set (quantized opaque) \<and> n = count_list (quantized opaque) c \<and> min_pixels \<le> int n"
proof -
  have "(c, n) \<in> set (filtered (Counter (quantized opaque)) min_pixels)"
    using assms set_top_colors by blast
  then show ?thesis
    by (rule filtered_mem [THEN iffD1])
qed

lemma sorted_desc_sort: "sorted_wrt (\<lambda>x y. snd y \<le> snd x) (sort_by_count_desc xs)"
proof -
  have "sorted (map (\<lambda>x. - int (snd x)) (sort_key (\<lambda>x. - int (snd x)) xs))"
    by (rule sorted_sort_key)
  then have "sorted_wrt (\<lambda>x y. - int (snd x) \<le> - int (snd y)) (sort_key (\<lambda>x. - int (snd x)) xs)"
    by (simp only: sorted_wrt_map)
  then show ?thesis
    unfolding sort_by_count_desc_def by simp
qed

lemma top_colors_sorted:
  "sorted_wrt (\<lambda>x y. snd y \<le> snd x) (top_colors opaque max_colors min_pixels)"
proof -
  obtain k where "top_colors opaque max_colors min_pixels =
      take k (sort_by_count_desc (filtered (Counter (quantized opaque)) min_pixels))"
    using top_colors_take by blast
  then show ?thesis
    by (simp only: sorted_wrt_take [OF sorted_desc_sort])
qed

section \<open>Evaluation on concrete images\<close>

lemma pct_1_1: "py_round2 (float_mul (fl 1) 100) = 100"
  unfolding py_round2_def float_mul_def by code_simp

lemma pct_3_4: "py_round2 (float_mul (fl (3 / 4)) 100) = 75"
  unfolding py_round2_def float_mul_def by code_simp

lemma pct_1_4: "py_round2 (float_mul (fl (1 / 4)) 100) = 25"
  unfolding py_round2_def float_mul_def by code_simp

lemma hex_C30F00: "hex_color (195, 15, 0) = ''#C30F00''"
  by (simp add: hex_color_def format_02X_def hex_digits.simps hex_digit_def)

lemma hex_FFFFFF: "hex_color (255, 255, 255) = ''#FFFFFF''"
  by (simp add: hex_color_def format_02X_def hex_digits.simps hex_digit_def)

lemma hex_000000: "hex_color (0, 0, 0) = ''#000000''"
  by (simp add: hex_color_def format_02X_def hex_digits.simps hex_digit_def)

lemma quantized_single: "quantized [(200, 10, 5, 255)] = [(195, 15, 0)]"
  by (simp add: quantized_def quantize_channel_eq)

lemma quantized_four:
  "quantized [(0, 0, 0, 255), (255, 255, 255, 255), (255, 255, 255, 255), (255, 255, 255, 255)]
     = [(0, 0, 0), (255, 255, 255), (255, 255, 255), (255, 255, 255)]"
  by (simp add: quantized_def quantize_channel_eq)

lemma opaque_four:
  "opaque_pixels [(0, 0, 0, 255), (255, 255, 255, 255), (255, 255, 255, 255), (255, 255, 255, 255)]
     = [(0, 0, 0, 255), (255, 255, 255, 255), (255, 255, 255, 255), (255, 255, 255, 255)]"
  by (simp add: opaque_pixels_def)

lemma top_four:
  "top_colors [(0, 0, 0, 255), (255, 255, 255, 255), (255, 255, 255, 255), (255, 255, 255, 255)] 5 1
     = [((255, 255, 255), 3), ((0, 0, 0), 1)]"
  by (simp add: top_colors_def quantized_four Counter_def filtered_def sort_by_count_desc_def
      slice_to_def)

lemma palette_four:
  "extract_color_palette
     [(0, 0, 0, 255), (255, 255, 255, 255), (255, 255, 255, 255), (255, 255, 255, 255)] 5 1
   = Inr [\<lparr>color = ''#FFFFFF'', pixelCount = 3, percentage = 75\<rparr>,
          \<lparr>color = ''#000000'', pixelCount = 1, percentage = 25\<rparr>]"
  by (simp add: extract_color_palette_eq opaque_four top_four entry_of_def hex_FFFFFF hex_000000
      pct_3_4 pct_1_4)

section \<open>Properties of the palette extractor\<close>

text \<open>
  C1. The image of one fully opaque pixel (200, 10, 5), with \<open>min_pixels = 1\<close> and any
  \<open>max_colors\<close> of at least 1, gives exactly one entry: colour \<open>#C30F00\<close>, pixel count 1,
  percentage 100.
\<close>

theorem single_pixel_palette:
  assumes "1 \<le> max_colors"
  shows "extract_color_palette [(200, 10, 5, 255)] max_colors 1
    = Inr [\<lparr>color = ''#C30F00'', pixelCount = 1, percentage = 100\<rparr>]"
proof -
  obtain k where k: "nat max_colors = Suc k"
    using assms by (cases "nat max_colors") simp_all
  have "top_colors [(200, 10, 5, 255)] max_colors 1 = [((195, 15, 0), 1)]"
    using assms
    by (simp add: top_colors_def quantized_single Counter_def filtered_def
        sort_by_count_desc_def slice_to_def k)
  then show ?thesis
    by (simp add: extract_color_palette_eq opaque_pixels_def entry_of_def hex_C30F00 pct_1_1)
qed

theorem single_pixel_palette_witness:
  "(1::int) \<le> 5 \<and> extract_color_palette [(200, 10, 5, 255)] 5 1
    = Inr [\<lparr>color = ''#C30F00'', pixelCount = 1, percentage = 100\<rparr>]"
  using single_pixel_palette [of 5] by simp

text \<open>
  C5. An image in which every pixel has alpha at most 127 has no opaque pixel, and the
  extractor returns the empty palette for every \<open>max_colors\<close> and \<open>min_pixels\<close>: a normal
  return, the division is never reached.
\<close>

theorem no_opaque_pixel_empty_palette:
  assumes "\<forall>(r, g, b, a) \<in> set pixels. a \<le> 127"
  shows "extract_color_palette pixels max_colors min_pixels = Inr []"
proof -
  have "opaque_pixels pixels = []"
    using assms by (auto simp: opaque_pixels_def filter_empty_conv)
  then show ?thesis
    by (simp add: extract_color_palette_def)
qed

theorem no_opaque_pixel_empty_palette_witness:
  "(127 :: 8 word) \<le> 127 \<and> (0 :: 8 word) \<le> 127
   \<and> extract_color_palette [(10, 20, 30, 127), (255, 255, 255, 0)] 5 100 = Inr []"
  using no_opaque_pixel_empty_palette [of "[(10, 20, 30, 127), (255, 255, 255, 0)]" 5 100]
  by simp

lemma palette_counts:
  assumes "extract_color_palette pixels max_colors min_pixels = Inr palette"
  shows "map pixelCount palette = map snd (top_colors (opaque_pixels pixels) max_colors min_pixels)"
proof -
  have "palette = map (entry_of (length (opaque_pixels pixels)))
      (top_colors (opaque_pixels pixels) max_colors min_pixels)"
    using assms by (simp add: extract_color_palette_eq)
  then show ?thesis
    by (simp add: entry_of_def comp_def)
qed

lemma length_filtered_Counter:
  "length (filtered (Counter xs) min_pixels)
     = card {c \<in> set xs. min_pixels \<le> int (count_list xs c)}"
proof -
  let ?F = "filtered (Counter xs) min_pixels"
  have "distinct (map fst ?F)"
    unfolding filtered_def by (rule distinct_map_filter) (rule distinct_keys_Counter)
  then have "card (set (map fst ?F)) = length (map fst ?F)"
    by (rule distinct_card)
  moreover have "set (map fst ?F) = {c \<in> set xs. min_pixels \<le> int (count_list xs c)}"
  proof (rule set_eqI)
    fix c
    have "c \<in> set (map fst ?F) \<longleftrightarrow> (\<exists>n. (c, n) \<in> set ?F)"
      by force
    also have "\<dots> \<longleftrightarrow> c \<in> set xs \<and> min_pixels \<le> int (count_list xs c)"
      by (simp add: filtered_mem)
    finally show "c \<in> set (map fst ?F) \<longleftrightarrow> c \<in> {c \<in> set xs. min_pixels \<le> int (count_list xs c)}"
      by simp
  qed
  ultimately show ?thesis
    by simp
qed

lemma length_top_colors:
  assumes "0 \<le> max_colors"
  shows "length (top_colors opaque max_colors min_pixels)
    = min (nat max_colors)
        (card {c \<in> set (quantized opaque). min_pixels \<le> int (count_list (quantized opaque) c)})"
  using assms
  by (simp add: top_colors_def slice_to_nonneg sort_by_count_desc_def length_filtered_Counter
      min.commute)

text \<open>
  C8. The extractor is total: for every image of 8-bit RGBA pixels and all parameters it
  returns a palette and raises nothing. The only operation that can raise is the division
  by the number of opaque pixels, and where the loop is reached that number is not zero,
  so formatting an entry succeeds.
\<close>

theorem extract_color_palette_total:
  "(\<exists>palette. extract_color_palette pixels max_colors min_pixels = Inr palette)
   \<and> (opaque_pixels pixels \<noteq> [] \<longrightarrow>
        (\<exists>entry. format_entry (length (opaque_pixels pixels)) x = Inr entry))"
  by (simp add: extract_color_palette_eq format_entry_ok)

theorem extract_color_palette_total_witness:
  "opaque_pixels [(200, 10, 5, 255)] \<noteq> []
   \<and> (\<exists>entry. format_entry (length (opaque_pixels [(200, 10, 5, 255)])) ((195, 15, 0), 1)
         = Inr entry)
   \<and> (\<exists>palette. extract_color_palette [(200, 10, 5, 255)] 5 100 = Inr palette)"
proof -
  have "opaque_pixels [(200, 10, 5, 255)] \<noteq> []"
    by (simp add: opaque_pixels_def)
  then show ?thesis
    using extract_color_palette_total [of "[(200, 10, 5, 255)]" 5 100 "((195, 15, 0), 1)"]
    by blast
qed

text \<open>
  C4. The returned palette is in descending order of pixel count: an entry never has a
  smaller count than an entry after it, in particular for adjacent entries.
\<close>

theorem palette_sorted_by_count_desc:
  assumes "extract_color_palette pixels max_colors min_pixels = Inr palette"
    and "i < j" and "j < length palette"
  shows "pixelCount (palette ! j) \<le> pixelCount (palette ! i)"
proof -
  let ?top = "top_colors (opaque_pixels pixels) max_colors min_pixels"
  have counts: "map pixelCount palette = map snd ?top"
    using assms(1) by (rule palette_counts)
  then have len: "length ?top = length palette"
    by (metis length_map)
  have "snd (?top ! j) \<le> snd (?top ! i)"
    using top_colors_sorted assms(2,3) len by (simp add: sorted_wrt_iff_nth_less)
  moreover have i: "i < length palette"
    using assms(2,3) by simp
  have "pixelCount (palette ! j) = snd (?top ! j)"
    using counts assms(3) len by (metis nth_map)
  moreover have "pixelCount (palette ! i) = snd (?top ! i)"
    using counts i len by (metis nth_map)
  ultimately show ?thesis
    by simp
qed

theorem palette_sorted_by_count_desc_witness:
  "extract_color_palette
     [(0, 0, 0, 255), (255, 255, 255, 255), (255, 255, 255, 255), (255, 255, 255, 255)] 5 1
   = Inr [\<lparr>color = ''#FFFFFF'', pixelCount = 3, percentage = 75\<rparr>,
          \<lparr>color = ''#000000'', pixelCount = 1, percentage = 25\<rparr>]
   \<and> (0::nat) < 1
   \<and> 1 < length [\<lparr>color = ''#FFFFFF'', pixelCount = 3, percentage = 75\<rparr>,
          \<lparr>color = ''#000000'', pixelCount = 1, percentage = 25\<rparr>]
   \<and> pixelCount ([\<lparr>color = ''#FFFFFF'', pixelCount = 3, percentage = 75\<rparr>,
          \<lparr>color = ''#000000'', pixelCount = 1, percentage = 25\<rparr>] ! 1)
      \<le> pixelCount ([\<lparr>color = ''#FFFFFF'', pixelCount = 3, percentage = 75\<rparr>,
          \<lparr>color = ''#000000'', pixelCount = 1, percentage = 25\<rparr>] ! 0)"
  using palette_sorted_by_count_desc [OF palette_four, of 0 1] palette_four by simp

text \<open>
  C7. For \<open>max_colors \<ge> 0\<close> the palette has at most \<open>max_colors\<close> entries and at most as
  many as there are distinct quantized colours whose count reaches \<open>min_pixels\<close>; with
  \<open>max_colors = 0\<close> it is empty.
\<close>

theorem palette_length_bound:
  assumes "0 \<le> max_colors"
    and "extract_color_palette pixels max_colors min_pixels = Inr palette"
  shows "int (length palette) \<le> min max_colors
      (int (card {c \<in> set (quantized (opaque_pixels pixels)).
         min_pixels \<le> int (count_list (quantized (opaque_pixels pixels)) c)}))
    \<and> (max_colors = 0 \<longrightarrow> palette = [])"
proof -
  have "length palette = length (top_colors (opaque_pixels pixels) max_colors min_pixels)"
    using palette_counts [OF assms(2)] by (metis length_map)
  then have "length palette = min (nat max_colors)
      (card {c \<in> set (quantized (opaque_pixels pixels)).
         min_pixels \<le> int (count_list (quantized (opaque_pixels pixels)) c)})"
    by (simp only: length_top_colors [OF assms(1)])
  then show ?thesis
    using assms(1) by auto
qed

theorem palette_length_bound_witness:
  "(0::int) \<le> 5
   \<and> int (length [\<lparr>color = ''#FFFFFF'', pixelCount = 3, percentage = 75\<rparr>,
          \<lparr>color = ''#000000'', pixelCount = 1, percentage = 25\<rparr>])
      \<le> min 5 (int (card {c \<in> set (quantized (opaque_pixels
           [(0, 0, 0, 255), (255, 255, 255, 255), (255, 255, 255, 255), (255, 255, 255, 255)])).
         1 \<le> int (count_list (quantized (opaque_pixels
           [(0, 0, 0, 255), (255, 255, 255, 255), (255, 255, 255, 255), (255, 255, 255, 255)])) c)}))"
  using palette_length_bound [OF _ palette_four] by simp





lemma nearest_multiple_of_15:
  fixes v m :: int
  assumes "15 dvd m" and "m \<noteq> (v + 7) div 15 * 15"
  shows "\<bar>(v + 7) div 15 * 15 - v\<bar> < \<bar>m - v\<bar>"
proof -
  obtain k where m: "m = 15 * k"
    using assms(1) unfolding dvd_def by blast
  let ?j = "(v + 7) div 15"
  have j: "15 * ?j \<le> v + 7" "v + 7 < 15 * ?j + 15"
    by presburger+
  have "k \<noteq> ?j"
    using assms(2) m by auto
  then consider "k \<le> ?j - 1" | "?j + 1 \<le> k"
    by linarith
  then show ?thesis
    using j m by cases linarith+
qed

lemma pct_2_3: "py_round2 (float_mul (fl (2 / 3)) 100) = fl (6667 / 100)"
  unfolding py_round2_def float_mul_def by code_simp



lemma hex_FF0000: "hex_color (255, 0, 0) = ''#FF0000''"
  by (simp add: hex_color_def format_02X_def hex_digits.simps hex_digit_def)



lemma palette_entry_cases:
  assumes "extract_color_palette pixels max_colors min_pixels = Inr palette"
    and "e \<in> set palette"
  obtains c k where "(c, k) \<in> set (top_colors (opaque_pixels pixels) max_colors min_pixels)"
    and "e = entry_of (length (opaque_pixels pixels)) (c, k)"
proof -
  have "palette = map (entry_of (length (opaque_pixels pixels)))
      (top_colors (opaque_pixels pixels) max_colors min_pixels)"
    using assms(1) by (simp add: extract_color_palette_eq)
  with assms(2) obtain x where "x \<in> set (top_colors (opaque_pixels pixels) max_colors min_pixels)"
    and "e = entry_of (length (opaque_pixels pixels)) x"
    by auto
  then show ?thesis
    using that [of "fst x" "snd x"] by simp
qed





subsection \<open>Hexadecimal colour names\<close>

lemma hex_digit_inj:
  assumes "a < 16" and "b < 16" and "hex_digit a = hex_digit b"
  shows "a = b"
proof -
  have "distinct ''0123456789ABCDEF''"
    by simp
  then show ?thesis
    using assms by (simp add: hex_digit_def nth_eq_iff_index_eq)
qed

lemma format_02X_byte:
  assumes "0 \<le> i" and "i \<le> 255"
  shows "format_02X i = [hex_digit (nat i div 16), hex_digit (nat i mod 16)]"
proof (cases "nat i < 16")
  case True
  then show ?thesis
    using assms by (simp add: format_02X_def hex_digits.simps [of "nat i"] hex_digit_def)
next
  case False
  moreover have "nat i div 16 < 16"
    using assms by simp
  ultimately show ?thesis
    using assms
    by (simp add: format_02X_def hex_digits.simps [of "nat i"] hex_digits.simps [of "nat i div 16"])
qed

lemma format_02X_inj:
  assumes "0 \<le> i" "i \<le> 255" "0 \<le> j" "j \<le> 255" and "format_02X i = format_02X j"
  shows "i = j"
proof -
  have "hex_digit (nat i div 16) = hex_digit (nat j div 16)"
    "hex_digit (nat i mod 16) = hex_digit (nat j mod 16)"
    using assms by (simp_all add: format_02X_byte)
  moreover have "nat i div 16 < 16" "nat j div 16 < 16" "nat i mod 16 < 16" "nat j mod 16 < 16"
    using assms by simp_all
  ultimately have "nat i div 16 = nat j div 16" "nat i mod 16 = nat j mod 16"
    by (simp_all add: hex_digit_inj)
  then have "nat i = nat j"
    by (metis div_mult_mod_eq)
  then show ?thesis
    using assms by simp
qed

lemma hex_color_inj:
  assumes "byte_color c" and "byte_color c'" and "hex_color c = hex_color c'"
  shows "c = c'"
proof -
  obtain r g b where c: "c = (r, g, b)" by (cases c)
  obtain r' g' b' where c': "c' = (r', g', b')" by (cases c')
  have rng: "0 \<le> r" "r \<le> 255" "0 \<le> g" "g \<le> 255" "0 \<le> b" "b \<le> 255"
    "0 \<le> r'" "r' \<le> 255" "0 \<le> g'" "g' \<le> 255" "0 \<le> b'" "b' \<le> 255"
    using assms(1,2) by (simp_all add: byte_color_def c c')
  have "format_02X r = format_02X r' \<and> format_02X g = format_02X g' \<and> format_02X b = format_02X b'"
    using assms(3) rng by (simp add: hex_color_def c c' format_02X_byte)
  then show ?thesis
    using rng by (simp add: c c' format_02X_inj)
qed

lemma quantize_channel_range: "0 \<le> quantize_channel c \<and> quantize_channel c \<le> 255"
proof -
  have "unat c < 256"
    using unsigned_less [of c] by simp
  then have "0 \<le> (int (unat c) + 7) div 15 * 15" "(int (unat c) + 7) div 15 * 15 \<le> 255"
    by presburger+
  then show ?thesis
    by (simp only: quantize_channel_eq)
qed

lemma quantized_byte_color: "c \<in> set (quantized opaque) \<Longrightarrow> byte_color c"
  by (auto simp: quantized_def byte_color_def quantize_channel_range)

lemma first_index_map_inj:
  assumes "\<And>y. y \<in> set xs \<Longrightarrow> f y = f c \<Longrightarrow> y = c"
  shows "first_index (map f xs) (f c) = first_index xs c"
proof -
  have "takeWhile ((\<lambda>y. y \<noteq> f c) \<circ> f) xs = takeWhile (\<lambda>y. y \<noteq> c) xs"
    by (rule takeWhile_cong) (use assms in auto)
  then show ?thesis
    by (simp add: first_index_def takeWhile_map)
qed

lemma first_index_hex_color:
  assumes "byte_color c"
  shows "first_index (map hex_color (quantized opaque)) (hex_color c)
    = first_index (quantized opaque) c"
  by (rule first_index_map_inj) (use assms quantized_byte_color hex_color_inj in blast)

subsection \<open>Ties\<close>

lemma sorted_wrt_filter_nth:
  assumes "sorted_wrt R (filter Q xs)" and "i < j" and "j < length xs"
    and "Q (xs ! i)" and "Q (xs ! j)"
  shows "R (xs ! i) (xs ! j)"
proof -
  have xs: "xs = take j xs @ xs ! j # drop (Suc j) xs"
    using assms(3) by (rule id_take_nth_drop)
  have "xs ! i \<in> set (take j xs)"
    using assms(2,3) by (auto simp: in_set_conv_nth intro!: exI [of _ i])
  then have i: "xs ! i \<in> set (filter Q (take j xs))"
    using assms(4) by simp
  have "sorted_wrt R (filter Q (take j xs) @ xs ! j # filter Q (drop (Suc j) xs))"
    using assms(1,5) by (subst (asm) xs) simp
  then have "\<forall>x\<in>set (filter Q (take j xs)). R x (xs ! j)"
    by (simp add: sorted_wrt_append)
  with i show ?thesis
    by blast
qed

lemma top_colors_ties:
  assumes "i < j" and "j < length (top_colors opaque max_colors min_pixels)"
    and "snd (top_colors opaque max_colors min_pixels ! i)
       = snd (top_colors opaque max_colors min_pixels ! j)"
  shows "first_index (quantized opaque) (fst (top_colors opaque max_colors min_pixels ! i))
    < first_index (quantized opaque) (fst (top_colors opaque max_colors min_pixels ! j))"
proof -
  let ?q = "quantized opaque"
  let ?R = "\<lambda>a b. first_index ?q (fst a) < first_index ?q (fst b)"
  let ?F = "filtered (Counter ?q) min_pixels"
  let ?key = "\<lambda>x :: qcolor \<times> nat. - int (snd x)"
  let ?S = "sort_key ?key ?F"
  let ?top = "top_colors opaque max_colors min_pixels"
  obtain k where top: "?top = take k ?S"
    using top_colors_take [of opaque max_colors min_pixels]
    unfolding sort_by_count_desc_def by blast
  have j: "j < k" "j < length ?S"
    using assms(2) by (simp_all add: top)
  then have nth: "?top ! i = ?S ! i" "?top ! j = ?S ! j"
    using assms(1) by (simp_all add: top)
  have "sorted_wrt ?R (Counter ?q)"
    using keys_Counter_first_order [of ?q] by (simp add: sorted_wrt_map)
  then have "sorted_wrt ?R ?F"
    unfolding filtered_def by (rule sorted_wrt_filter)
  then have "sorted_wrt ?R (filter (\<lambda>y. ?key y = ?key (?S ! j)) ?F)"
    by (rule sorted_wrt_filter)
  then have "sorted_wrt ?R (filter (\<lambda>y. ?key y = ?key (?S ! j)) ?S)"
    by (simp only: sort_key_stable)
  then have "?R (?S ! i) (?S ! j)"
    using assms(1) j(2)
  proof (rule sorted_wrt_filter_nth)
    show "?key (?S ! i) = ?key (?S ! j)"
      using assms(3) by (simp add: nth)
    show "?key (?S ! j) = ?key (?S ! j)"
      by simp
  qed
  then show ?thesis
    by (simp only: nth)
qed

lemma palette_nth:
  assumes "extract_color_palette pixels max_colors min_pixels = Inr palette"
    and "i < length palette"
  shows "i < length (top_colors (opaque_pixels pixels) max_colors min_pixels)
    \<and> palette ! i = entry_of (length (opaque_pixels pixels))
          (top_colors (opaque_pixels pixels) max_colors min_pixels ! i)"
proof -
  have "palette = map (entry_of (length (opaque_pixels pixels)))
      (top_colors (opaque_pixels pixels) max_colors min_pixels)"
    using assms(1) by (simp add: extract_color_palette_eq)
  then show ?thesis
    using assms(2) by simp
qed

lemma top_colors_nth_byte_color:
  assumes "i < length (top_colors opaque max_colors min_pixels)"
  shows "byte_color (fst (top_colors opaque max_colors min_pixels ! i))"
proof -
  have "top_colors opaque max_colors min_pixels ! i \<in> set (top_colors opaque max_colors min_pixels)"
    using assms by simp
  then have "fst (top_colors opaque max_colors min_pixels ! i) \<in> set (quantized opaque)"
    using top_colors_mem [of "fst (top_colors opaque max_colors min_pixels ! i)"
        "snd (top_colors opaque max_colors min_pixels ! i)" opaque max_colors min_pixels]
    by simp
  then show ?thesis
    by (rule quantized_byte_color)
qed

lemma pct_1_2: "py_round2 (float_mul (fl (1 / 2)) 100) = 50"
  unfolding py_round2_def float_mul_def by code_simp

lemma hex_0000FF: "hex_color (0, 0, 255) = ''#0000FF''"
  by (simp add: hex_color_def format_02X_def hex_digits.simps hex_digit_def)

lemma quantized_tie:
  "quantized (opaque_pixels [(0, 0, 255, 255), (255, 0, 0, 255), (255, 0, 0, 255), (0, 0, 255, 255)])
     = [(0, 0, 255), (255, 0, 0), (255, 0, 0), (0, 0, 255)]"
  by (simp add: opaque_pixels_def quantized_def quantize_channel_eq)

lemma palette_tie:
  "extract_color_palette
     [(0, 0, 255, 255), (255, 0, 0, 255), (255, 0, 0, 255), (0, 0, 255, 255)] 5 1
   = Inr [\<lparr>color = ''#0000FF'', pixelCount = 2, percentage = 50\<rparr>,
          \<lparr>color = ''#FF0000'', pixelCount = 2, percentage = 50\<rparr>]"
proof -
  have "top_colors (opaque_pixels
      [(0, 0, 255, 255), (255, 0, 0, 255), (255, 0, 0, 255), (0, 0, 255, 255)]) 5 1
    = [((0, 0, 255), 2), ((255, 0, 0), 2)]"
    by (simp add: top_colors_def quantized_tie Counter_def filtered_def sort_by_count_desc_def
        slice_to_def)
  then show ?thesis
    by (simp add: extract_color_palette_eq entry_of_def hex_0000FF hex_FF0000 pct_1_2
        opaque_pixels_def)
qed

text \<open>
  C10. Entries of the palette with the same pixel count appear in the order in which
  their colours first occur among the opaque pixels of the image: the counting dictionary
  keeps first-insertion order, the sort is stable, and the filter and the truncation keep
  the order. The colours are compared by their hexadecimal names, which are distinct for
  distinct quantized colours.
\<close>

theorem ties_in_first_occurrence_order:
  assumes "extract_color_palette pixels max_colors min_pixels = Inr palette"
    and "i < j" and "j < length palette"
    and "pixelCount (palette ! i) = pixelCount (palette ! j)"
  shows "first_index (map hex_color (quantized (opaque_pixels pixels))) (color (palette ! i))
    < first_index (map hex_color (quantized (opaque_pixels pixels))) (color (palette ! j))"
proof -
  let ?top = "top_colors (opaque_pixels pixels) max_colors min_pixels"
  let ?n = "length (opaque_pixels pixels)"
  have i: "i < length palette"
    using assms(2,3) by simp
  have pi: "i < length ?top" "palette ! i = entry_of ?n (?top ! i)"
    using palette_nth [OF assms(1) i] by simp_all
  have pj: "j < length ?top" "palette ! j = entry_of ?n (?top ! j)"
    using palette_nth [OF assms(1,3)] by simp_all
  have "snd (?top ! i) = snd (?top ! j)"
    using assms(4) by (simp add: pi pj entry_of_def)
  with assms(2) pj(1)
  have "first_index (quantized (opaque_pixels pixels)) (fst (?top ! i))
      < first_index (quantized (opaque_pixels pixels)) (fst (?top ! j))"
    by (rule top_colors_ties)
  moreover have "color (palette ! i) = hex_color (fst (?top ! i))"
    "color (palette ! j) = hex_color (fst (?top ! j))"
    by (simp_all add: pi pj entry_of_def)
  ultimately show ?thesis
    by (simp only: first_index_hex_color [OF top_colors_nth_byte_color [OF pi(1)]]
        first_index_hex_color [OF top_colors_nth_byte_color [OF pj(1)]])
qed

theorem ties_in_first_occurrence_order_witness:
  "extract_color_palette
     [(0, 0, 255, 255), (255, 0, 0, 255), (255, 0, 0, 255), (0, 0, 255, 255)] 5 1
   = Inr [\<lparr>color = ''#0000FF'', pixelCount = 2, percentage = 50\<rparr>,
          \<lparr>color = ''#FF0000'', pixelCount = 2, percentage = 50\<rparr>]
   \<and> (0::nat) < 1
   \<and> 1 < length [\<lparr>color = ''#0000FF'', pixelCount = 2, percentage = 50\<rparr>,
          \<lparr>color = ''#FF0000'', pixelCount = 2, percentage = 50\<rparr>]
   \<and> pixelCount ([\<lparr>color = ''#0000FF'', pixelCount = 2, percentage = 50\<rparr>,
          \<lparr>color = ''#FF0000'', pixelCount = 2, percentage = 50\<rparr>] ! 0)
     = pixelCount ([\<lparr>color = ''#0000FF'', pixelCount = 2, percentage = 50\<rparr>,
          \<lparr>color = ''#FF0000'', pixelCount = 2, percentage = 50\<rparr>] ! 1)
   \<and> first_index (map hex_color (quantized (opaque_pixels
         [(0, 0, 255, 255), (255, 0, 0, 255), (255, 0, 0, 255), (0, 0, 255, 255)]))) ''#0000FF''
     < first_index (map hex_color (quantized (opaque_pixels
         [(0, 0, 255, 255), (255, 0, 0, 255), (255, 0, 0, 255), (0, 0, 255, 255)]))) ''#FF0000''"
  using ties_in_first_occurrence_order [OF palette_tie, of 0 1] palette_tie by simp

subsection \<open>The threshold\<close>

lemma top_colors_all:
  assumes "\<not> length (top_colors opaque max_colors min_pixels)
      < length (filtered (Counter (quantized opaque)) min_pixels)"
  shows "set (top_colors opaque max_colors min_pixels)
    = set (filtered (Counter (quantized opaque)) min_pixels)"
proof -
  let ?S = "sort_by_count_desc (filtered (Counter (quantized opaque)) min_pixels)"
  obtain k where top: "top_colors opaque max_colors min_pixels = take k ?S"
    using top_colors_take by blast
  have "length ?S = length (filtered (Counter (quantized opaque)) min_pixels)"
    by (simp add: sort_by_count_desc_def)
  with assms have "length ?S \<le> k"
    by (simp add: top)
  then have "top_colors opaque max_colors min_pixels = ?S"
    by (simp add: top)
  then show ?thesis
    by (simp add: sort_by_count_desc_def)
qed

lemma palette_set:
  assumes "extract_color_palette pixels max_colors min_pixels = Inr palette"
  shows "set palette = entry_of (length (opaque_pixels pixels))
    ` set (top_colors (opaque_pixels pixels) max_colors min_pixels)"
  using assms by (auto simp: extract_color_palette_eq)

lemma quantized_three:
  "quantized (opaque_pixels [(0, 0, 0, 255), (255, 255, 255, 255), (255, 255, 255, 255)])
     = [(0, 0, 0), (255, 255, 255), (255, 255, 255)]"
  by (simp add: opaque_pixels_def quantized_def quantize_channel_eq)

lemma palette_three:
  "extract_color_palette [(0, 0, 0, 255), (255, 255, 255, 255), (255, 255, 255, 255)] 5 2
   = Inr [\<lparr>color = ''#FFFFFF'', pixelCount = 2, percentage = fl (6667 / 100)\<rparr>]"
proof -
  have "top_colors (opaque_pixels
      [(0, 0, 0, 255), (255, 255, 255, 255), (255, 255, 255, 255)]) 5 2
    = [((255, 255, 255), 2)]"
    by (simp add: top_colors_def quantized_three Counter_def filtered_def sort_by_count_desc_def
        slice_to_def)
  then show ?thesis
    by (simp add: extract_color_palette_eq entry_of_def hex_FFFFFF pct_2_3 opaque_pixels_def)
qed

subsection \<open>The counting key\<close>

lemma quantized_closed_form:
  "quantized opaque =
     map (\<lambda>(r, g, b, a). ((int (unat r) + 7) div 15 * 15, (int (unat g) + 7) div 15 * 15,
       (int (unat b) + 7) div 15 * 15)) opaque"
  unfolding quantized_def by (rule map_cong) (auto simp: quantize_channel_eq)

lemma palette_entry_key:
  assumes "extract_color_palette pixels max_colors min_pixels = Inr palette"
    and "e \<in> set palette"
  shows "\<exists>k\<in>set (quantized (opaque_pixels pixels)). color e = hex_color k
    \<and> pixelCount e = count_list (quantized (opaque_pixels pixels)) k"
proof -
  from assms obtain c n
    where top: "(c, n) \<in> set (top_colors (opaque_pixels pixels) max_colors min_pixels)"
      and e: "e = entry_of (length (opaque_pixels pixels)) (c, n)"
    by (rule palette_entry_cases)
  have "c \<in> set (quantized (opaque_pixels pixels))"
    "n = count_list (quantized (opaque_pixels pixels)) c"
    using top_colors_mem [OF top] by simp_all
  then show ?thesis
    by (auto simp: e entry_of_def)
qed

text \<open>
  C3. For every list of opaque pixels, each pixel is replaced by the triple of its
  quantized red, green and blue channels, alpha left out, and these triples are the keys
  of the counting dictionary: the dictionary has one key for each distinct triple, with
  the number of opaque pixels that have it, and every returned entry reports the count of
  such a key. A channel value \<open>v\<close> in 0..255 is quantized to \<^verbatim>\<open>round(v / 15) * 15\<close>, which
  is \<open>(v + 7) div 15 * 15\<close>, the multiple of 15 nearest to \<open>v\<close>: it lies between 0 and 255
  and every other multiple of 15 is strictly farther from \<open>v\<close>, so no tie arises.
\<close>

theorem quantized_key_nearest_multiple:
  "quantized opaque =
     map (\<lambda>(r, g, b, a). ((int (unat r) + 7) div 15 * 15, (int (unat g) + 7) div 15 * 15,
       (int (unat b) + 7) div 15 * 15)) opaque
   \<and> distinct (map fst (Counter (quantized opaque)))
   \<and> ((k, n) \<in> set (Counter (quantized opaque))
        \<longleftrightarrow> k \<in> set (quantized opaque) \<and> n = count_list (quantized opaque) k)
   \<and> (extract_color_palette pixels max_colors min_pixels = Inr palette \<and> e \<in> set palette
        \<longrightarrow> (\<exists>k\<in>set (quantized (opaque_pixels pixels)). color e = hex_color k
              \<and> pixelCount e = count_list (quantized (opaque_pixels pixels)) k))
   \<and> quantize_channel c = (int (unat c) + 7) div 15 * 15
   \<and> 15 dvd quantize_channel c \<and> 0 \<le> quantize_channel c \<and> quantize_channel c \<le> 255
   \<and> (15 dvd m \<and> m \<noteq> quantize_channel c \<longrightarrow>
         \<bar>quantize_channel c - int (unat c)\<bar> < \<bar>m - int (unat c)\<bar>)"
proof -
  have range: "0 \<le> quantize_channel c" "quantize_channel c \<le> 255"
    using quantize_channel_range [of c] by simp_all
  have dvd: "15 dvd quantize_channel c"
    by (simp only: quantize_channel_eq dvd_triv_right)
  have near: "15 dvd m \<and> m \<noteq> quantize_channel c \<longrightarrow>
      \<bar>quantize_channel c - int (unat c)\<bar> < \<bar>m - int (unat c)\<bar>"
    using nearest_multiple_of_15 [of m "int (unat c)"] by (simp only: quantize_channel_eq) blast
  have entries: "extract_color_palette pixels max_colors min_pixels = Inr palette \<and> e \<in> set palette
      \<longrightarrow> (\<exists>k\<in>set (quantized (opaque_pixels pixels)). color e = hex_color k
            \<and> pixelCount e = count_list (quantized (opaque_pixels pixels)) k)"
    using palette_entry_key by blast
  from quantized_closed_form [of opaque] distinct_keys_Counter [of "quantized opaque"]
    Counter_mem [of k n "quantized opaque"] entries quantize_channel_eq [of c] dvd range near
  show ?thesis
    by (intro conjI)
qed

theorem quantized_key_nearest_multiple_witness:
  "15 dvd (210 :: int) \<and> 210 \<noteq> quantize_channel 200
   \<and> \<bar>quantize_channel 200 - int (unat (200 :: 8 word))\<bar> < \<bar>210 - int (unat (200 :: 8 word))\<bar>
   \<and> quantized [(200, 10, 5, 255), (0, 0, 0, 128), (197, 8, 7, 200)]
       = [(195, 15, 0), (0, 0, 0), (195, 15, 0)]
   \<and> Counter (quantized [(200, 10, 5, 255), (0, 0, 0, 128), (197, 8, 7, 200)])
       = [((195, 15, 0), 2), ((0, 0, 0), 1)]
   \<and> extract_color_palette
        [(0, 0, 0, 255), (255, 255, 255, 255), (255, 255, 255, 255), (255, 255, 255, 255)] 5 1
      = Inr [\<lparr>color = ''#FFFFFF'', pixelCount = 3, percentage = 75\<rparr>,
             \<lparr>color = ''#000000'', pixelCount = 1, percentage = 25\<rparr>]
   \<and> color \<lparr>color = ''#FFFFFF'', pixelCount = 3, percentage = 75\<rparr> = hex_color (255, 255, 255)
   \<and> pixelCount \<lparr>color = ''#FFFFFF'', pixelCount = 3, percentage = 75\<rparr>
       = count_list (quantized (opaque_pixels
           [(0, 0, 0, 255), (255, 255, 255, 255), (255, 255, 255, 255), (255, 255, 255, 255)]))
           (255, 255, 255)"
  using quantized_key_nearest_multiple
    [of "[(200, 10, 5, 255), (0, 0, 0, 128), (197, 8, 7, 200)]" "(195, 15, 0)" 2
      "[(0, 0, 0, 255), (255, 255, 255, 255), (255, 255, 255, 255), (255, 255, 255, 255)]" 5 1
      "[\<lparr>color = ''#FFFFFF'', pixelCount = 3, percentage = 75\<rparr>,
        \<lparr>color = ''#000000'', pixelCount = 1, percentage = 25\<rparr>]"
      "\<lparr>color = ''#FFFFFF'', pixelCount = 3, percentage = 75\<rparr>" 200 210]
    palette_four
  by (simp add: quantize_channel_eq Counter_def hex_FFFFFF opaque_four quantized_four)

subsection \<open>The threshold and the truncation\<close>

lemma take_sorted_desc_absent:
  assumes "sorted_wrt (\<lambda>a b. snd b \<le> snd a) S" and "x \<in> set S" and "x \<notin> set (take k S)"
  shows "length (take k S) = k \<and> k < length S \<and> (\<forall>y\<in>set (take k S). snd x \<le> snd y)"
proof -
  obtain j where j: "j < length S" "S ! j = x"
    using assms(2) by (auto simp: in_set_conv_nth)
  have kj: "k \<le> j"
  proof (rule ccontr)
    assume "\<not> k \<le> j"
    then have "j < length (take k S)" "take k S ! j = x"
      using j by simp_all
    then have "x \<in> set (take k S)"
      by (metis nth_mem)
    with assms(3) show False
      by simp
  qed
  have "\<forall>y\<in>set (take k S). snd x \<le> snd y"
  proof
    fix y
    assume "y \<in> set (take k S)"
    then obtain i where i: "i < length (take k S)" "take k S ! i = y"
      by (auto simp: in_set_conv_nth)
    then have "i < k" "S ! i = y"
      by simp_all
    then have "i < j"
      using kj by simp
    then have "snd (S ! j) \<le> snd (S ! i)"
      using assms(1) j(1) by (simp add: sorted_wrt_iff_nth_less)
    then show "snd x \<le> snd y"
      by (simp add: j(2) \<open>S ! i = y\<close>)
  qed
  then show ?thesis
    using kj j(1) by simp
qed

lemma top_colors_absent:
  assumes "x \<in> set (filtered (Counter (quantized opaque)) min_pixels)"
    and "x \<notin> set (top_colors opaque max_colors min_pixels)"
  shows "int (length (top_colors opaque max_colors min_pixels))
      = (if 0 \<le> max_colors then max_colors
         else max 0 (int (length (filtered (Counter (quantized opaque)) min_pixels)) + max_colors))
    \<and> (\<forall>y\<in>set (top_colors opaque max_colors min_pixels). snd x \<le> snd y)"
proof -
  let ?F = "filtered (Counter (quantized opaque)) min_pixels"
  let ?S = "sort_by_count_desc ?F"
  define k where "k = (if 0 \<le> max_colors then nat max_colors else length ?S - nat (- max_colors))"
  have top: "top_colors opaque max_colors min_pixels = take k ?S"
    by (simp add: top_colors_def slice_to_def k_def)
  have len: "length ?S = length ?F"
    by (simp add: sort_by_count_desc_def)
  have "x \<in> set ?S"
    using assms(1) by (simp add: sort_by_count_desc_def)
  moreover have "x \<notin> set (take k ?S)"
    using assms(2) unfolding top .
  ultimately have r: "length (take k ?S) = k \<and> k < length ?S
      \<and> (\<forall>y\<in>set (take k ?S). snd x \<le> snd y)"
    using sorted_desc_sort by (rule take_sorted_desc_absent [rotated])
  then have "k < length ?F"
    unfolding len by blast
  then have "int k = (if 0 \<le> max_colors then max_colors
      else max 0 (int (length ?F) + max_colors))"
    unfolding k_def len by (cases "0 \<le> max_colors") auto
  moreover have "length (top_colors opaque max_colors min_pixels) = k"
    unfolding top using r by blast
  moreover have "\<forall>y\<in>set (top_colors opaque max_colors min_pixels). snd x \<le> snd y"
    unfolding top using r by blast
  ultimately show ?thesis
    by simp
qed

lemma palette_four_top1:
  "extract_color_palette
     [(0, 0, 0, 255), (255, 255, 255, 255), (255, 255, 255, 255), (255, 255, 255, 255)] 1 1
   = Inr [\<lparr>color = ''#FFFFFF'', pixelCount = 3, percentage = 75\<rparr>]"
proof -
  have "top_colors
      [(0, 0, 0, 255), (255, 255, 255, 255), (255, 255, 255, 255), (255, 255, 255, 255)] 1 1
    = [((255, 255, 255), 3)]"
    by (simp add: top_colors_def quantized_four Counter_def filtered_def sort_by_count_desc_def
        slice_to_def)
  then show ?thesis
    by (simp add: extract_color_palette_eq opaque_four entry_of_def hex_FFFFFF pct_3_4)
qed

text \<open>
  C6. With \<open>min_pixels \<ge> 1\<close>, a colour whose count among the opaque pixels is below
  \<open>min_pixels\<close>, in particular one with exactly \<open>min_pixels - 1\<close>, is in no returned entry.
  A colour whose count is \<open>min_pixels\<close> or more, in particular exactly \<open>min_pixels\<close>, has
  its entry in the palette, with that count, unless the slice \<^verbatim>\<open>[:max_colors]\<close> cut it off:
  then the palette has exactly \<open>max_colors\<close> entries (for a negative \<open>max_colors\<close>, that
  many fewer than there are colours that passed the filter) and each of them has at least
  as many pixels as the colour left out. So when no more than \<open>max_colors\<close> colours pass
  the filter, every one of them is in the palette. Every returned entry has at least
  \<open>min_pixels\<close> pixels, and the filter keeps exactly the colours whose count is not below
  \<open>min_pixels\<close>.
\<close>

theorem threshold_filter:
  assumes "1 \<le> min_pixels"
    and "extract_color_palette pixels max_colors min_pixels = Inr palette"
    and "byte_color c"
  shows "(int (count_list (quantized (opaque_pixels pixels)) c) < min_pixels
        \<longrightarrow> hex_color c \<notin> color ` set palette)
    \<and> (min_pixels \<le> int (count_list (quantized (opaque_pixels pixels)) c)
        \<longrightarrow> (\<exists>e\<in>set palette. color e = hex_color c
               \<and> pixelCount e = count_list (quantized (opaque_pixels pixels)) c)
           \<or> (int (length palette)
                = (if 0 \<le> max_colors then max_colors
                   else max 0 (int (card {c' \<in> set (quantized (opaque_pixels pixels)).
                     min_pixels \<le> int (count_list (quantized (opaque_pixels pixels)) c')})
                     + max_colors))
              \<and> (\<forall>e\<in>set palette.
                    count_list (quantized (opaque_pixels pixels)) c \<le> pixelCount e)))
    \<and> (min_pixels \<le> int (count_list (quantized (opaque_pixels pixels)) c)
          \<and> int (card {c' \<in> set (quantized (opaque_pixels pixels)).
                min_pixels \<le> int (count_list (quantized (opaque_pixels pixels)) c')})
              \<le> max_colors
        \<longrightarrow> (\<exists>e\<in>set palette. color e = hex_color c
               \<and> pixelCount e = count_list (quantized (opaque_pixels pixels)) c))
    \<and> (\<forall>e\<in>set palette. min_pixels \<le> int (pixelCount e))
    \<and> ((c, n) \<in> set (filtered (Counter (quantized (opaque_pixels pixels))) min_pixels)
        \<longleftrightarrow> c \<in> set (quantized (opaque_pixels pixels))
          \<and> n = count_list (quantized (opaque_pixels pixels)) c \<and> \<not> int n < min_pixels)"
proof -
  let ?q = "quantized (opaque_pixels pixels)"
  let ?top = "top_colors (opaque_pixels pixels) max_colors min_pixels"
  let ?F = "filtered (Counter ?q) min_pixels"
  let ?n = "length (opaque_pixels pixels)"
  let ?present = "\<exists>e\<in>set palette. color e = hex_color c \<and> pixelCount e = count_list ?q c"
  note pal = palette_set [OF assms(2)]
  have len: "length palette = length ?top"
    using palette_counts [OF assms(2)] by (metis length_map)
  have below: "hex_color c \<notin> color ` set palette" if lt: "int (count_list ?q c) < min_pixels"
  proof
    assume "hex_color c \<in> color ` set palette"
    then obtain x where x: "x \<in> set ?top" and eq: "hex_color c = hex_color (fst x)"
      unfolding pal by (auto simp: entry_of_def)
    have "(fst x, snd x) \<in> set ?top"
      using x by simp
    then have mem: "fst x \<in> set ?q \<and> snd x = count_list ?q (fst x) \<and> min_pixels \<le> int (snd x)"
      by (rule top_colors_mem)
    then have "byte_color (fst x)"
      using quantized_byte_color by blast
    with assms(3) eq have "c = fst x"
      using hex_color_inj by blast
    with mem lt show False
      by simp
  qed
  have passes: "(c, count_list ?q c) \<in> set ?F" if ge: "min_pixels \<le> int (count_list ?q c)"
  proof -
    have "count_list ?q c \<noteq> 0"
      using ge assms(1) by simp
    then have "c \<in> set ?q"
      by (simp add: count_list_0_iff)
    then show ?thesis
      using ge by (simp add: filtered_mem)
  qed
  have in_top: ?present if "(c, count_list ?q c) \<in> set ?top"
  proof -
    have "entry_of ?n (c, count_list ?q c) \<in> set palette"
      unfolding pal using that by (rule imageI)
    moreover have "color (entry_of ?n (c, count_list ?q c)) = hex_color c"
      "pixelCount (entry_of ?n (c, count_list ?q c)) = count_list ?q c"
      by (simp_all add: entry_of_def)
    ultimately show ?thesis
      by blast
  qed
  have above: "?present
      \<or> (int (length palette)
            = (if 0 \<le> max_colors then max_colors
               else max 0 (int (card {c' \<in> set ?q. min_pixels \<le> int (count_list ?q c')})
                 + max_colors))
          \<and> (\<forall>e\<in>set palette. count_list ?q c \<le> pixelCount e))"
    if ge: "min_pixels \<le> int (count_list ?q c)"
  proof (cases "(c, count_list ?q c) \<in> set ?top")
    case True
    then show ?thesis
      using in_top by blast
  next
    case False
    have cut: "int (length ?top)
        = (if 0 \<le> max_colors then max_colors else max 0 (int (length ?F) + max_colors))
      \<and> (\<forall>y\<in>set ?top. snd (c, count_list ?q c) \<le> snd y)"
      using passes [OF ge] False by (rule top_colors_absent)
    then have "\<forall>e\<in>set palette. count_list ?q c \<le> pixelCount e"
      unfolding pal by (auto simp: entry_of_def)
    moreover have "int (length palette)
        = (if 0 \<le> max_colors then max_colors
           else max 0 (int (card {c' \<in> set ?q. min_pixels \<le> int (count_list ?q c')})
             + max_colors))"
      using cut by (simp only: len length_filtered_Counter)
    ultimately show ?thesis
      by blast
  qed
  have fits: ?present
    if ge: "min_pixels \<le> int (count_list ?q c)"
      and card: "int (card {c' \<in> set ?q. min_pixels \<le> int (count_list ?q c')}) \<le> max_colors"
  proof -
    have "0 \<le> max_colors"
      using card by linarith
    then have "length ?top = min (nat max_colors)
        (card {c' \<in> set ?q. min_pixels \<le> int (count_list ?q c')})"
      by (rule length_top_colors)
    then have "\<not> length ?top < length ?F"
      using card by (simp add: length_filtered_Counter)
    then have "set ?top = set ?F"
      by (rule top_colors_all)
    then show ?thesis
      using passes [OF ge] in_top by blast
  qed
  have every: "\<forall>e\<in>set palette. min_pixels \<le> int (pixelCount e)"
  proof
    fix e
    assume "e \<in> set palette"
    then obtain x where x: "x \<in> set ?top" and e: "e = entry_of ?n x"
      unfolding pal by auto
    have "(fst x, snd x) \<in> set ?top"
      using x by simp
    then have "min_pixels \<le> int (snd x)"
      using top_colors_mem by blast
    then show "min_pixels \<le> int (pixelCount e)"
      by (simp add: e entry_of_def)
  qed
  have exact: "(c, n) \<in> set ?F
      \<longleftrightarrow> c \<in> set ?q \<and> n = count_list ?q c \<and> \<not> int n < min_pixels"
    by (simp add: filtered_mem not_less)
  from below above fits every exact show ?thesis
    by blast
qed

theorem threshold_filter_witness:
  "(1::int) \<le> 2
   \<and> extract_color_palette [(0, 0, 0, 255), (255, 255, 255, 255), (255, 255, 255, 255)] 5 2
     = Inr [\<lparr>color = ''#FFFFFF'', pixelCount = 2, percentage = fl (6667 / 100)\<rparr>]
   \<and> byte_color (0, 0, 0)
   \<and> int (count_list (quantized (opaque_pixels
        [(0, 0, 0, 255), (255, 255, 255, 255), (255, 255, 255, 255)])) (0, 0, 0)) = 2 - 1
   \<and> hex_color (0, 0, 0)
       \<notin> color ` set [\<lparr>color = ''#FFFFFF'', pixelCount = 2, percentage = fl (6667 / 100)\<rparr>]
   \<and> int (count_list (quantized (opaque_pixels
        [(0, 0, 0, 255), (255, 255, 255, 255), (255, 255, 255, 255)])) (255, 255, 255)) = 2
   \<and> hex_color (255, 255, 255)
       \<in> color ` set [\<lparr>color = ''#FFFFFF'', pixelCount = 2, percentage = fl (6667 / 100)\<rparr>]
   \<and> extract_color_palette
        [(0, 0, 0, 255), (255, 255, 255, 255), (255, 255, 255, 255), (255, 255, 255, 255)] 1 1
     = Inr [\<lparr>color = ''#FFFFFF'', pixelCount = 3, percentage = 75\<rparr>]
   \<and> int (count_list (quantized (opaque_pixels
        [(0, 0, 0, 255), (255, 255, 255, 255), (255, 255, 255, 255), (255, 255, 255, 255)]))
        (0, 0, 0)) = 1
   \<and> hex_color (0, 0, 0)
       \<notin> color ` set [\<lparr>color = ''#FFFFFF'', pixelCount = 3, percentage = 75\<rparr>]
   \<and> int (length [\<lparr>color = ''#FFFFFF'', pixelCount = 3, percentage = 75\<rparr>]) = 1"
  using threshold_filter [OF _ palette_three, of "(0, 0, 0)"] palette_three
    threshold_filter [OF _ palette_four_top1, of "(0, 0, 0)"] palette_four_top1
  by (simp add: byte_color_def quantized_three hex_FFFFFF hex_000000 opaque_four quantized_four)

section \<open>Properties of the report assembler\<close>









lemma asset_palette_total:
  "isl (asset_palette load getdata p)
     \<longleftrightarrow> isl (load p) \<or> (\<exists>img. load p = Inr img \<and> isl (getdata img))"
  by (cases "load p")
    (auto simp: asset_palette_def extract_color_palette_image_def extract_color_palette_eq
      split: sum.splits)















end
